theory Spec2Isabelle
  imports Main "HOL-Library.Word"
begin

section \<open>The intrusive doubly linked list of IntrusiveListN.h\<close>

text \<open>
  The container threads caller-owned elements through an \<open>IntrusiveListHook\<close> embedded in
  each of them. The model keeps a store of hooks indexed by address and a store of list
  objects indexed by an object identity, so that two lists (or a list and a position) may
  share hooks exactly as the C++ objects may. Pointers are 64-bit words and the null
  pointer is 0; \<open>std::size_t\<close> is a 64-bit word as well, so \<open>++m_size\<close> and
  \<open>--m_size\<close> wrap as they do in the program. An element is identified with the address
  of its hook (\<open>get_value\<close> subtracts a constant offset, 0 for \<open>Node\<close>).
\<close>

subsection \<open>Data model\<close>

type_synonym ptr = "64 word"

abbreviation nullptr :: ptr where
  "nullptr \<equiv> 0"

record IntrusiveListHook =
  prev :: ptr
  "next" :: ptr

definition is_linked :: "IntrusiveListHook \<Rightarrow> bool" where
  "is_linked hk = (prev hk \<noteq> nullptr \<or> next hk \<noteq> nullptr)"

record IntrusiveList =
  m_head :: ptr
  m_tail :: ptr
  m_size :: "64 word"

record state =
  hooks :: "ptr \<Rightarrow> IntrusiveListHook"
  ilists :: "nat \<Rightarrow> IntrusiveList"

text \<open>
  The operations modelled here throw \<open>std::runtime_error\<close> for an element that is
  already in a list and for an invalid iterator; the third error is the dereference of a
  null pointer, which the program does not check for.
\<close>

datatype error = AlreadyLinked | InvalidPosition | NullDereference

datatype 'a outcome = Returned 'a | Threw error

text \<open>The constructor \<open>IntrusiveList()\<close>.\<close>

definition IntrusiveList_new :: IntrusiveList where
  "IntrusiveList_new = \<lparr>m_head = nullptr, m_tail = nullptr, m_size = 0\<rparr>"

subsection \<open>Assignments to single fields\<close>

definition set_prev :: "ptr \<Rightarrow> ptr \<Rightarrow> state \<Rightarrow> state" where
  "set_prev a v s = s\<lparr>hooks := (hooks s)(a := (hooks s a)\<lparr>prev := v\<rparr>)\<rparr>"

definition set_next :: "ptr \<Rightarrow> ptr \<Rightarrow> state \<Rightarrow> state" where
  "set_next a v s = s\<lparr>hooks := (hooks s)(a := (hooks s a)\<lparr>next := v\<rparr>)\<rparr>"

definition set_head :: "nat \<Rightarrow> ptr \<Rightarrow> state \<Rightarrow> state" where
  "set_head l v s = s\<lparr>ilists := (ilists s)(l := (ilists s l)\<lparr>m_head := v\<rparr>)\<rparr>"

definition set_tail :: "nat \<Rightarrow> ptr \<Rightarrow> state \<Rightarrow> state" where
  "set_tail l v s = s\<lparr>ilists := (ilists s)(l := (ilists s l)\<lparr>m_tail := v\<rparr>)\<rparr>"

definition set_size :: "nat \<Rightarrow> 64 word \<Rightarrow> state \<Rightarrow> state" where
  "set_size l v s = s\<lparr>ilists := (ilists s)(l := (ilists s l)\<lparr>m_size := v\<rparr>)\<rparr>"

subsection \<open>The iterator\<close>

text \<open>
  An \<open>IntrusiveListIterator\<close> holds one pointer \<open>m_node\<close>; the model uses the pointer
  itself. \<open>operator++\<close> and \<open>operator--\<close> move only when \<open>m_node\<close> is not null.
\<close>

definition iter_inc :: "(ptr \<Rightarrow> IntrusiveListHook) \<Rightarrow> ptr \<Rightarrow> ptr" where
  "iter_inc h m_node = (if m_node \<noteq> nullptr then next (h m_node) else m_node)"

definition iter_dec :: "(ptr \<Rightarrow> IntrusiveListHook) \<Rightarrow> ptr \<Rightarrow> ptr" where
  "iter_dec h m_node = (if m_node \<noteq> nullptr then prev (h m_node) else m_node)"

definition begin_it :: "state \<Rightarrow> nat \<Rightarrow> ptr" where
  "begin_it s this = m_head (ilists s this)"

definition end_it :: ptr where
  "end_it = nullptr"

definition list_empty :: "state \<Rightarrow> nat \<Rightarrow> bool" where
  "list_empty s this = (m_size (ilists s this) = 0)"

definition list_size :: "state \<Rightarrow> nat \<Rightarrow> 64 word" where
  "list_size s this = m_size (ilists s this)"

subsection \<open>Core mutators\<close>

definition push_front :: "nat \<Rightarrow> ptr \<Rightarrow> state \<Rightarrow> unit outcome \<times> state" where
  "push_front this v s =
    (if is_linked (hooks s v) then (Threw AlreadyLinked, s)
     else
       let s = set_prev v nullptr s;
           s = set_next v (m_head (ilists s this)) s;
           s = (if m_head (ilists s this) \<noteq> nullptr
                then set_prev (m_head (ilists s this)) v s else s);
           s = set_head this v s;
           s = (if m_tail (ilists s this) = nullptr then set_tail this v s else s);
           s = set_size this (m_size (ilists s this) + 1) s
       in (Returned (), s))"

definition push_back :: "nat \<Rightarrow> ptr \<Rightarrow> state \<Rightarrow> unit outcome \<times> state" where
  "push_back this v s =
    (if is_linked (hooks s v) then (Threw AlreadyLinked, s)
     else
       let s = set_next v nullptr s;
           s = set_prev v (m_tail (ilists s this)) s;
           s = (if m_tail (ilists s this) \<noteq> nullptr
                then set_next (m_tail (ilists s this)) v s else s);
           s = set_tail this v s;
           s = (if m_head (ilists s this) = nullptr then set_head this v s else s);
           s = set_size this (m_size (ilists s this) + 1) s
       in (Returned (), s))"

definition insert_at :: "nat \<Rightarrow> ptr \<Rightarrow> ptr \<Rightarrow> state \<Rightarrow> unit outcome \<times> state" where
  "insert_at this pos v s =
    (if is_linked (hooks s v) then (Threw AlreadyLinked, s)
     else if pos = begin_it s this then push_front this v s
     else if pos = end_it then push_back this v s
     else
       let posHook = pos;
           s = set_next v posHook s;
           s = set_prev v (prev (hooks s posHook)) s;
           s = (if prev (hooks s posHook) \<noteq> nullptr
                then set_next (prev (hooks s posHook)) v s
                else set_head this v s);
           s = set_prev posHook v s;
           s = set_size this (m_size (ilists s this) + 1) s
       in (Returned (), s))"

text \<open>
  \<open>pop_front\<close> reads \<open>m_head->next\<close> once the size is not 0; a null \<open>m_head\<close> there is
  a null dereference.
\<close>

definition pop_front :: "nat \<Rightarrow> state \<Rightarrow> unit outcome \<times> state" where
  "pop_front this s =
    (if list_empty s this then (Returned (), s)
     else if m_head (ilists s this) = nullptr then (Threw NullDereference, s)
     else
       let oldHead = m_head (ilists s this);
           s = set_head this (next (hooks s oldHead)) s;
           s = (if m_head (ilists s this) \<noteq> nullptr
                then set_prev (m_head (ilists s this)) nullptr s
                else set_tail this nullptr s);
           s = set_prev oldHead nullptr s;
           s = set_next oldHead nullptr s;
           s = set_size this (m_size (ilists s this) - 1) s
       in (Returned (), s))"

definition pop_back :: "nat \<Rightarrow> state \<Rightarrow> unit outcome \<times> state" where
  "pop_back this s =
    (if list_empty s this \<or> m_tail (ilists s this) = nullptr then (Returned (), s)
     else
       let oldTail = m_tail (ilists s this);
           s = set_tail this (prev (hooks s oldTail)) s;
           s = (if m_tail (ilists s this) \<noteq> nullptr
                then set_next (m_tail (ilists s this)) nullptr s else s);
           s = set_prev oldTail nullptr s;
           s = set_next oldTail nullptr s;
           s = set_size this (m_size (ilists s this) - 1) s
       in (Returned (), s))"

definition erase :: "nat \<Rightarrow> ptr \<Rightarrow> state \<Rightarrow> ptr outcome \<times> state" where
  "erase this pos s =
    (let hook = pos in
     if hook = nullptr then (Threw InvalidPosition, s)
     else
       let nxt = next (hooks s hook);
           s = (if prev (hooks s hook) \<noteq> nullptr
                then set_next (prev (hooks s hook)) (next (hooks s hook)) s
                else set_head this (next (hooks s hook)) s);
           s = (if next (hooks s hook) \<noteq> nullptr
                then set_prev (next (hooks s hook)) (prev (hooks s hook)) s
                else set_tail this (prev (hooks s hook)) s);
           s = set_next hook nullptr s;
           s = set_prev hook nullptr s;
           s = set_size this (m_size (ilists s this) - 1) s
       in (Returned nxt, s))"

text \<open>The static member \<open>remove\<close>: it has no \<open>this\<close> and cannot throw.\<close>

definition remove_static :: "ptr \<Rightarrow> state \<Rightarrow> state" where
  "remove_static v s =
    (if \<not> is_linked (hooks s v) then s
     else
       let s = (if prev (hooks s v) \<noteq> nullptr
                then set_next (prev (hooks s v)) (next (hooks s v)) s else s);
           s = (if next (hooks s v) \<noteq> nullptr
                then set_prev (next (hooks s v)) (prev (hooks s v)) s else s);
           s = set_prev v nullptr s;
           s = set_next v nullptr s
       in s)"

subsection \<open>Sequencing\<close>

text \<open>A statement that threw ends the function; the state is the one reached so far.\<close>

definition and_then ::
  "unit outcome \<times> state \<Rightarrow> (state \<Rightarrow> unit outcome \<times> state) \<Rightarrow> unit outcome \<times> state" where
  "and_then r f = (case r of (Returned _, s) \<Rightarrow> f s | (Threw e, s) \<Rightarrow> (Threw e, s))"

subsection \<open>Cross-list operations\<close>

text \<open>
  \<open>merge\<close> and the whole-list \<open>splice\<close> write through \<open>other.m_head\<close> and
  \<open>other.m_tail\<close> after testing only \<open>other.empty()\<close>, that is the size.
\<close>

definition merge :: "nat \<Rightarrow> nat \<Rightarrow> state \<Rightarrow> unit outcome \<times> state" where
  "merge this other s =
    (if list_empty s other then (Returned (), s)
     else and_then
       (if m_tail (ilists s this) \<noteq> nullptr then
          let s = set_next (m_tail (ilists s this)) (m_head (ilists s other)) s in
          if m_head (ilists s other) = nullptr then (Threw NullDereference, s)
          else
            let s = set_prev (m_head (ilists s other)) (m_tail (ilists s this)) s;
                s = set_tail this (m_tail (ilists s other)) s
            in (Returned (), s)
        else
          let s = set_head this (m_head (ilists s other)) s;
              s = set_tail this (m_tail (ilists s other)) s
          in (Returned (), s))
       (\<lambda>s.
          let s = set_size this (m_size (ilists s this) + m_size (ilists s other)) s;
              s = set_tail other nullptr s;
              s = set_head other nullptr s;
              s = set_size other 0 s
          in (Returned (), s)))"

text \<open>\<open>splice(iterator pos, IntrusiveList& other)\<close>.\<close>

definition splice_list :: "nat \<Rightarrow> ptr \<Rightarrow> nat \<Rightarrow> state \<Rightarrow> unit outcome \<times> state" where
  "splice_list this pos other s =
    (if list_empty s other then (Returned (), s)
     else and_then
       (let posHook = pos in
        if posHook = nullptr then
          and_then
            (if m_tail (ilists s this) \<noteq> nullptr then
               let s = set_next (m_tail (ilists s this)) (m_head (ilists s other)) s in
               if m_head (ilists s other) = nullptr then (Threw NullDereference, s)
               else (Returned (), set_prev (m_head (ilists s other)) (m_tail (ilists s this)) s)
             else (Returned (), set_head this (m_head (ilists s other)) s))
            (\<lambda>s. (Returned (), set_tail this (m_tail (ilists s other)) s))
        else
          let prv = prev (hooks s posHook) in
          and_then
            (if prv \<noteq> nullptr then
               let s = set_next prv (m_head (ilists s other)) s in
               if m_head (ilists s other) = nullptr then (Threw NullDereference, s)
               else (Returned (), set_prev (m_head (ilists s other)) prv s)
             else (Returned (), set_head this (m_head (ilists s other)) s))
            (\<lambda>s.
               let s = set_prev posHook (m_tail (ilists s other)) s in
               if m_tail (ilists s other) = nullptr then (Threw NullDereference, s)
               else (Returned (), set_next (m_tail (ilists s other)) posHook s)))
       (\<lambda>s.
          let s = set_size this (m_size (ilists s this) + m_size (ilists s other)) s;
              s = set_tail other nullptr s;
              s = set_head other nullptr s;
              s = set_size other 0 s
          in (Returned (), s)))"

text \<open>
  The two loops of the range \<open>splice\<close> run \<open>while (it != last)\<close>; they do not end when
  \<open>last\<close> (here \<open>last_it\<close>) is not reached from \<open>first\<close>. The fuel bounds the number
  of iterations and \<open>None\<close> says that it ran out. A loop that ends has only visited pointers different
  from \<open>last\<close>, and none of them null (the increment of a null iterator stays null),
  so \<open>firstHook\<close> and \<open>blockTail\<close> are not null where they are dereferenced.
\<close>

fun find_block_tail ::
  "nat \<Rightarrow> (ptr \<Rightarrow> IntrusiveListHook) \<Rightarrow> ptr \<Rightarrow> ptr \<Rightarrow> ptr \<Rightarrow> ptr option" where
  "find_block_tail 0 h it last_it blockTail = (if it \<noteq> last_it then None else Some blockTail)"
| "find_block_tail (Suc n) h it last_it blockTail =
    (if it \<noteq> last_it then find_block_tail n h (iter_inc h it) last_it it else Some blockTail)"

fun count_run ::
  "nat \<Rightarrow> (ptr \<Rightarrow> IntrusiveListHook) \<Rightarrow> ptr \<Rightarrow> ptr \<Rightarrow> 64 word \<Rightarrow> 64 word option" where
  "count_run 0 h it last_it count = (if it \<noteq> last_it then None else Some count)"
| "count_run (Suc n) h it last_it count =
    (if it \<noteq> last_it then count_run n h (iter_inc h it) last_it (count + 1) else Some count)"

definition splice_range ::
  "nat \<Rightarrow> nat \<Rightarrow> ptr \<Rightarrow> nat \<Rightarrow> ptr \<Rightarrow> ptr \<Rightarrow> state \<Rightarrow> (unit outcome \<times> state) option" where
  "splice_range fuel this pos other first last_it s =
    (if first = last_it then Some (Returned (), s)
     else
       let firstHook = first; posHook = pos in
       case find_block_tail fuel (hooks s) first last_it nullptr of
         None \<Rightarrow> None
       | Some blockTail \<Rightarrow>
           let s = (if prev (hooks s firstHook) \<noteq> nullptr
                    then set_next (prev (hooks s firstHook)) last_it s
                    else set_head other last_it s);
               s = (if last_it \<noteq> nullptr
                    then set_prev last_it (prev (hooks s firstHook)) s
                    else set_tail other (prev (hooks s firstHook)) s)
           in
           case count_run fuel (hooks s) first last_it 0 of
             None \<Rightarrow> None
           | Some count \<Rightarrow>
               let s = set_size other (m_size (ilists s other) - count) s;
                   s = (if posHook = nullptr then
                          let s = (if m_tail (ilists s this) \<noteq> nullptr then
                                     let s = set_next (m_tail (ilists s this)) firstHook s
                                     in set_prev firstHook (m_tail (ilists s this)) s
                                   else
                                     let s = set_head this firstHook s
                                     in set_prev firstHook nullptr s);
                              s = set_tail this blockTail s
                          in set_next blockTail nullptr s
                        else
                          let prv = prev (hooks s posHook);
                              s = (if prv \<noteq> nullptr then
                                     let s = set_next prv firstHook s
                                     in set_prev firstHook prv s
                                   else
                                     let s = set_head this firstHook s
                                     in set_prev firstHook nullptr s);
                              s = set_prev posHook blockTail s
                          in set_next blockTail posHook s);
                   s = set_size this (m_size (ilists s this) + count) s
               in Some (Returned (), s))"

subsection \<open>\<open>remove_if\<close>\<close>

text \<open>
  The predicate receives the element; elements are identified by the address of their
  hook. Each round of the \<open>for\<close> loop copies the incremented iterator into \<open>next\<close>,
  steps back with \<open>--it\<close> when the predicate holds and erases there.
\<close>

fun remove_if_loop ::
  "nat \<Rightarrow> nat \<Rightarrow> (ptr \<Rightarrow> bool) \<Rightarrow> ptr \<Rightarrow> state \<Rightarrow> (unit outcome \<times> state) option" where
  "remove_if_loop 0 this p it s = (if it \<noteq> end_it then None else Some (Returned (), s))"
| "remove_if_loop (Suc n) this p it s =
    (if it \<noteq> end_it then
       let val = it;
           it = iter_inc (hooks s) it;
           nxt = it
       in
       if p val then
         (case erase this (iter_dec (hooks s) it) s of
            (Threw e, s) \<Rightarrow> Some (Threw e, s)
          | (Returned _, s) \<Rightarrow> remove_if_loop n this p nxt s)
       else remove_if_loop n this p nxt s
     else Some (Returned (), s))"

definition remove_if :: "nat \<Rightarrow> nat \<Rightarrow> (ptr \<Rightarrow> bool) \<Rightarrow> state \<Rightarrow> (unit outcome \<times> state) option" where
  "remove_if fuel this p s = remove_if_loop fuel this p (begin_it s this) s"

subsection \<open>Client loops\<close>

text \<open>
  \<open>for (it = l.begin(); it != l.end(); ++it)\<close> collects the elements it visits; the
  backward loop starts at an element and decrements until the iterator equals \<open>end()\<close>.
  Neither loop has to end on an arbitrary store, hence the fuel.
\<close>

fun forward_from :: "nat \<Rightarrow> (ptr \<Rightarrow> IntrusiveListHook) \<Rightarrow> ptr \<Rightarrow> ptr list option" where
  "forward_from 0 h it = (if it \<noteq> end_it then None else Some [])"
| "forward_from (Suc n) h it =
    (if it \<noteq> end_it then map_option ((#) it) (forward_from n h (iter_inc h it)) else Some [])"

fun backward_from :: "nat \<Rightarrow> (ptr \<Rightarrow> IntrusiveListHook) \<Rightarrow> ptr \<Rightarrow> ptr list option" where
  "backward_from 0 h it = (if it \<noteq> end_it then None else Some [])"
| "backward_from (Suc n) h it =
    (if it \<noteq> end_it then map_option ((#) it) (backward_from n h (iter_dec h it)) else Some [])"

fun push_back_all :: "nat \<Rightarrow> ptr list \<Rightarrow> state \<Rightarrow> unit outcome \<times> state" where
  "push_back_all this [] s = (Returned (), s)"
| "push_back_all this (e # es) s = and_then (push_back this e s) (push_back_all this es)"

subsection \<open>The representation invariant\<close>

text \<open>
  \<open>chain h p xs n\<close>: the hooks at the addresses \<open>xs\<close> are linked to one another in this
  order, the first one's \<open>prev\<close> is \<open>p\<close> and the last one's \<open>next\<close> is \<open>n\<close>.
  \<open>wf_list h l xs\<close>: the list object \<open>l\<close> holds exactly the chain \<open>xs\<close>.
\<close>

fun chain :: "(ptr \<Rightarrow> IntrusiveListHook) \<Rightarrow> ptr \<Rightarrow> ptr list \<Rightarrow> ptr \<Rightarrow> bool" where
  "chain h p [] n = True"
| "chain h p (x # xs) n =
    (x \<noteq> nullptr \<and> prev (h x) = p \<and> next (h x) = hd (xs @ [n]) \<and> chain h x xs n)"

definition wf_list :: "(ptr \<Rightarrow> IntrusiveListHook) \<Rightarrow> IntrusiveList \<Rightarrow> ptr list \<Rightarrow> bool" where
  "wf_list h l xs =
    (distinct xs \<and> chain h nullptr xs nullptr \<and>
     m_head l = hd (xs @ [nullptr]) \<and> m_tail l = last (nullptr # xs) \<and>
     m_size l = of_nat (length xs))"

subsection \<open>Concrete stores\<close>

text \<open>
  \<open>init_state\<close>: every hook is unlinked and every list object is freshly constructed.
  \<open>one_in_A\<close>: list 0 holds the single element at address 1 (the state after
  \<open>push_back\<close> on \<open>init_state\<close>). \<open>two_lists\<close>: list 0 holds the elements 1, 2 and
  list 1 holds 3, 4, as \<open>push_back\<close> builds them; \<open>three_in_A\<close>: list 0 holds 1, 2, 3.
\<close>

definition unlinked :: IntrusiveListHook where
  "unlinked = \<lparr>prev = nullptr, next = nullptr\<rparr>"

definition init_state :: state where
  "init_state = \<lparr>hooks = (\<lambda>_. unlinked), ilists = (\<lambda>_. IntrusiveList_new)\<rparr>"

definition one_in_A :: state where
  "one_in_A =
    \<lparr>hooks = (\<lambda>_. unlinked),
     ilists = (\<lambda>_. IntrusiveList_new)(0 := \<lparr>m_head = 1, m_tail = 1, m_size = 1\<rparr>)\<rparr>"

definition two_lists :: state where
  "two_lists =
    \<lparr>hooks = (\<lambda>_. unlinked)
       (1 := \<lparr>prev = nullptr, next = 2\<rparr>, 2 := \<lparr>prev = 1, next = nullptr\<rparr>,
        3 := \<lparr>prev = nullptr, next = 4\<rparr>, 4 := \<lparr>prev = 3, next = nullptr\<rparr>),
     ilists = (\<lambda>_. IntrusiveList_new)
       (0 := \<lparr>m_head = 1, m_tail = 2, m_size = 2\<rparr>,
        1 := \<lparr>m_head = 3, m_tail = 4, m_size = 2\<rparr>)\<rparr>"

definition three_in_A :: state where
  "three_in_A =
    \<lparr>hooks = (\<lambda>_. unlinked)
       (1 := \<lparr>prev = nullptr, next = 2\<rparr>, 2 := \<lparr>prev = 1, next = 3\<rparr>,
        3 := \<lparr>prev = 2, next = nullptr\<rparr>),
     ilists = (\<lambda>_. IntrusiveList_new)(0 := \<lparr>m_head = 1, m_tail = 3, m_size = 3\<rparr>)\<rparr>"

section \<open>Verification\<close>

subsection \<open>Field assignments and the concrete stores\<close>

lemma hooks_set [simp]:
  "hooks (set_prev a v s) = (hooks s)(a := (hooks s a)\<lparr>prev := v\<rparr>)"
  "hooks (set_next a v s) = (hooks s)(a := (hooks s a)\<lparr>next := v\<rparr>)"
  "hooks (set_head l v s) = hooks s"
  "hooks (set_tail l v s) = hooks s"
  "hooks (set_size l w s) = hooks s"
  by (simp_all add: set_prev_def set_next_def set_head_def set_tail_def set_size_def)

lemma ilists_set [simp]:
  "ilists (set_prev a v s) = ilists s"
  "ilists (set_next a v s) = ilists s"
  "ilists (set_head l v s) = (ilists s)(l := (ilists s l)\<lparr>m_head := v\<rparr>)"
  "ilists (set_tail l v s) = (ilists s)(l := (ilists s l)\<lparr>m_tail := v\<rparr>)"
  "ilists (set_size l w s) = (ilists s)(l := (ilists s l)\<lparr>m_size := w\<rparr>)"
  by (simp_all add: set_prev_def set_next_def set_head_def set_tail_def set_size_def)

lemma state_eqI: "hooks s = hooks t \<Longrightarrow> ilists s = ilists t \<Longrightarrow> s = (t::state)"
  by simp

lemma push_back_one: "push_back 0 1 init_state = (Returned (), one_in_A)"
  by (auto simp: push_back_def init_state_def one_in_A_def is_linked_def unlinked_def
      IntrusiveList_new_def Let_def fun_eq_iff intro!: state_eqI)

lemma push_back_three: "push_back_all 0 [1, 2, 3] init_state = (Returned (), three_in_A)"
  by (auto simp: push_back_def init_state_def three_in_A_def is_linked_def unlinked_def and_then_def
      IntrusiveList_new_def Let_def fun_eq_iff intro!: state_eqI)

lemma two_lists_built:
  "and_then (push_back_all 0 [1, 2] init_state) (push_back_all 1 [3, 4]) = (Returned (), two_lists)"
  by (auto simp: push_back_def init_state_def two_lists_def is_linked_def unlinked_def and_then_def
      IntrusiveList_new_def Let_def fun_eq_iff intro!: state_eqI)

subsection \<open>Chains of hooks\<close>

lemma chain_upd_notin: "a \<notin> set xs \<Longrightarrow> chain (h(a := z)) p xs n = chain h p xs n"
  by (induction xs arbitrary: p) auto

lemma chain_nonnull: "chain h p xs n \<Longrightarrow> nullptr \<notin> set xs"
  by (induction xs arbitrary: p) auto

lemma chain_append:
  "chain h p (xs @ ys) n = (chain h p xs (hd (ys @ [n])) \<and> chain h (last (p # xs)) ys n)"
proof (induction xs arbitrary: p)
  case Nil
  then show ?case by simp
next
  case (Cons x xs)
  show ?case
    by (cases xs) (use Cons.IH in auto)
qed

lemma chain_set_last_next:
  "chain h p xs n \<Longrightarrow> distinct xs \<Longrightarrow> xs \<noteq> [] \<Longrightarrow>
   chain (h(last xs := (h (last xs))\<lparr>next := n'\<rparr>)) p xs n'"
proof (induction xs arbitrary: p)
  case Nil
  then show ?case by simp
next
  case (Cons x xs)
  show ?case
  proof (cases xs)
    case Nil
    with Cons.prems show ?thesis by simp
  next
    case (Cons y ys)
    from Cons.prems have c: "chain h x xs n" and d: "distinct xs"
      and x: "x \<noteq> nullptr" "prev (h x) = p" "x \<notin> set xs"
      by simp_all
    from Cons.prems Cons have nx: "next (h x) = y" by simp
    from Cons have ne: "xs \<noteq> []" by simp
    then have "last xs \<in> set xs" by (rule last_in_set)
    with x(3) have neq: "x \<noteq> last xs" by auto
    have IH: "chain (h(last xs := (h (last xs))\<lparr>next := n'\<rparr>)) x xs n'"
      by (rule Cons.IH [OF c d ne])
    have l: "last (x # xs) = last xs" using ne by simp
    have hdy: "hd (xs @ [n']) = y" using Cons by simp
    have hx: "(h(last xs := (h (last xs))\<lparr>next := n'\<rparr>)) x = h x"
      using neq by simp
    have "chain (h(last xs := (h (last xs))\<lparr>next := n'\<rparr>)) p (x # xs) n'"
      unfolding chain.simps hx hdy using x(1,2) nx IH by - (intro conjI, assumption+)
    then show ?thesis
      unfolding l .
  qed
qed

lemma chain_set_hd_prev:
  "chain h p xs n \<Longrightarrow> distinct xs \<Longrightarrow> xs \<noteq> [] \<Longrightarrow>
   chain (h(hd xs := (h (hd xs))\<lparr>prev := p'\<rparr>)) p' xs n"
proof (cases xs)
  case Nil
  assume "xs \<noteq> []"
  with Nil show ?thesis by simp
next
  case (Cons x ys)
  assume "chain h p xs n" and "distinct xs"
  with Cons show ?thesis
    by (simp add: chain_upd_notin)
qed

lemma length_ptr_list_bound:
  fixes xs :: "ptr list"
  assumes "distinct xs" and "nullptr \<notin> set xs"
  shows "length xs < 2 ^ 64"
proof -
  have "set xs \<subseteq> UNIV - {nullptr}" using assms(2) by auto
  then have "card (set xs) \<le> card (UNIV - {nullptr :: ptr})"
    by (intro card_mono) auto
  also have "\<dots> = 2 ^ 64 - 1"
    by (simp add: card_Diff_singleton card_word)
  finally show ?thesis
    using assms(1) by (simp add: distinct_card)
qed

lemma wf_list_size:
  assumes "wf_list h l xs"
  shows "unat (m_size l) = length xs"
proof -
  have "length xs < 2 ^ 64"
    using assms by (intro length_ptr_list_bound) (auto simp: wf_list_def dest: chain_nonnull)
  then show ?thesis
    using assms by (simp add: wf_list_def unat_of_nat)
qed

lemma forward_from_chain:
  "chain h p xs nullptr \<Longrightarrow> length xs \<le> fuel \<Longrightarrow>
   forward_from fuel h (hd (xs @ [nullptr])) = Some xs"
proof (induction xs arbitrary: p fuel)
  case Nil
  then show ?case by (cases fuel) (simp_all add: end_it_def)
next
  case (Cons x xs)
  then obtain f where f: "fuel = Suc f" by (cases fuel) auto
  with Cons.prems Cons.IH [of x f] show ?case
    by (simp add: end_it_def iter_inc_def)
qed

lemma backward_from_chain:
  "chain h nullptr xs n \<Longrightarrow> length xs \<le> fuel \<Longrightarrow>
   backward_from fuel h (last (nullptr # xs)) = Some (rev xs)"
proof (induction xs arbitrary: n fuel rule: rev_induct)
  case Nil
  then show ?case by (cases fuel) (simp_all add: end_it_def)
next
  case (snoc x xs)
  then obtain f where f: "fuel = Suc f" by (cases fuel) auto
  from snoc.prems(1) have c: "chain h nullptr xs x" and x: "x \<noteq> nullptr"
    and p: "prev (h x) = last (nullptr # xs)"
    by (simp_all add: chain_append)
  from snoc.IH [OF c, of f] snoc.prems(2) f
  have "backward_from f h (last (nullptr # xs)) = Some (rev xs)" by simp
  with x p f show ?case
    by (simp add: end_it_def iter_dec_def)
qed

subsection \<open>\<open>push_back\<close> on a well-formed list\<close>

lemma push_back_returns:
  "\<not> is_linked (hooks s e) \<Longrightarrow> fst (push_back this e s) = Returned ()"
  by (simp add: push_back_def Let_def)

lemma push_back_hooks:
  "\<not> is_linked (hooks s e) \<Longrightarrow>
   hooks (snd (push_back this e s)) =
     (let t = m_tail (ilists s this);
          h = (hooks s)(e := (hooks s e)\<lparr>next := nullptr, prev := t\<rparr>)
      in if t \<noteq> nullptr then h(t := (h t)\<lparr>next := e\<rparr>) else h)"
  by (simp add: push_back_def Let_def)

lemma push_back_ilists:
  "\<not> is_linked (hooks s e) \<Longrightarrow>
   ilists (snd (push_back this e s)) =
     (ilists s)(this :=
        \<lparr>m_head = (if m_head (ilists s this) = nullptr then e else m_head (ilists s this)),
         m_tail = e, m_size = m_size (ilists s this) + 1\<rparr>)"
  by (simp add: push_back_def Let_def fun_eq_iff)

lemma push_back_wf:
  assumes wf: "wf_list (hooks s) (ilists s this) xs"
    and e: "e \<notin> set xs" "e \<noteq> nullptr" "\<not> is_linked (hooks s e)"
  shows "wf_list (hooks (snd (push_back this e s))) (ilists (snd (push_back this e s)) this)
           (xs @ [e])"
proof (cases "xs = []")
  case True
  with wf e show ?thesis
    by (simp add: push_back_hooks push_back_ilists wf_list_def Let_def)
next
  case False
  let ?t = "last xs"
  let ?h1 = "(hooks s)(e := (hooks s e)\<lparr>next := nullptr, prev := ?t\<rparr>)"
  let ?h2 = "?h1(?t := (?h1 ?t)\<lparr>next := e\<rparr>)"
  from wf have d: "distinct xs" and c: "chain (hooks s) nullptr xs nullptr"
    and hd: "m_head (ilists s this) = hd (xs @ [nullptr])"
    and tl: "m_tail (ilists s this) = last (nullptr # xs)"
    and sz: "m_size (ilists s this) = of_nat (length xs)"
    by (simp_all add: wf_list_def)
  from c have nn: "nullptr \<notin> set xs" by (rule chain_nonnull)
  from False have tin: "?t \<in> set xs" by (rule last_in_set)
  from False have hin: "hd xs \<in> set xs" by (rule hd_in_set)
  from tin nn have t0: "?t \<noteq> nullptr" by auto
  from hin nn have h0: "hd xs \<noteq> nullptr" by auto
  from tin e(1) have te: "?t \<noteq> e" by auto
  from False tl have tl': "m_tail (ilists s this) = ?t" by simp
  from False hd have hd': "m_head (ilists s this) = hd xs" by simp
  have hk: "hooks (snd (push_back this e s)) = ?h2"
    using e(3) t0 tl' by (simp add: push_back_hooks Let_def)
  have c1: "chain ?h1 nullptr xs nullptr"
    using c e(1) by (simp add: chain_upd_notin)
  have c2: "chain ?h2 nullptr xs e"
    by (rule chain_set_last_next [OF c1 d False])
  have c3: "chain ?h2 ?t [e] nullptr"
    using e(2) te by simp
  have c4: "chain ?h2 nullptr (xs @ [e]) nullptr"
    using c2 c3 False by (simp add: chain_append)
  have il: "ilists (snd (push_back this e s)) this =
      \<lparr>m_head = hd xs, m_tail = e, m_size = of_nat (length xs) + 1\<rparr>"
    using e(3) hd' h0 sz by (simp add: push_back_ilists)
  show ?thesis
    unfolding wf_list_def hk il using c4 d e(1) False by simp
qed

lemma push_back_frame:
  assumes "\<not> is_linked (hooks s e)" and "a \<noteq> e" and "a \<noteq> m_tail (ilists s this)"
  shows "hooks (snd (push_back this e s)) a = hooks s a"
  using assms by (simp add: push_back_hooks Let_def)

lemma push_back_all_wf:
  assumes "wf_list (hooks s) (ilists s this) xs" and "distinct (xs @ es)"
    and "nullptr \<notin> set es" and "\<forall>e\<in>set es. \<not> is_linked (hooks s e)"
  shows "fst (push_back_all this es s) = Returned () \<and>
         wf_list (hooks (snd (push_back_all this es s)))
           (ilists (snd (push_back_all this es s)) this) (xs @ es)"
  using assms
proof (induction es arbitrary: s xs)
  case Nil
  then show ?case by simp
next
  case (Cons e es)
  from Cons.prems have e: "e \<notin> set xs" "e \<noteq> nullptr" "\<not> is_linked (hooks s e)"
    by auto
  obtain s1 where r: "push_back this e s = (Returned (), s1)"
    using push_back_returns [OF e(3), of this] by (cases "push_back this e s") simp
  then have s1: "s1 = snd (push_back this e s)" by simp
  have wf1: "wf_list (hooks s1) (ilists s1 this) (xs @ [e])"
    unfolding s1 by (rule push_back_wf [OF Cons.prems(1) e])
  have d1: "distinct ((xs @ [e]) @ es)" using Cons.prems(2) by simp
  have n1: "nullptr \<notin> set es" using Cons.prems(3) by simp
  have u1: "\<forall>a\<in>set es. \<not> is_linked (hooks s1 a)"
  proof
    fix a assume a: "a \<in> set es"
    with Cons.prems(2) have ae: "a \<noteq> e" and ax: "a \<notin> set xs" by auto
    from Cons.prems(1) have "m_tail (ilists s this) = last (nullptr # xs)"
      by (simp add: wf_list_def)
    then have "m_tail (ilists s this) = nullptr \<or> m_tail (ilists s this) \<in> set xs"
      by (cases "xs = []") auto
    with ax a n1 have at: "a \<noteq> m_tail (ilists s this)" by auto
    from a Cons.prems(4) have "\<not> is_linked (hooks s a)" by simp
    then show "\<not> is_linked (hooks s1 a)"
      unfolding s1 by (simp add: push_back_frame [OF e(3) ae at])
  qed
  from Cons.IH [OF wf1 d1 n1 u1] show ?case
    by (simp add: r and_then_def)
qed

subsection \<open>The claims about single operations\<close>

lemma wf_init: "wf_list (hooks init_state) (ilists init_state l) []"
  by (simp add: wf_list_def init_state_def IntrusiveList_new_def)

lemma wf_one_in_A: "wf_list (hooks one_in_A) (ilists one_in_A 0) [1]"
  by (simp add: wf_list_def one_in_A_def unlinked_def)

lemma wf_two_lists:
  "wf_list (hooks two_lists) (ilists two_lists 0) [1, 2]"
  "wf_list (hooks two_lists) (ilists two_lists 1) [3, 4]"
  by (simp_all add: wf_list_def two_lists_def unlinked_def)

lemma wf_three_in_A: "wf_list (hooks three_in_A) (ilists three_in_A 0) [1, 2, 3]"
  by (simp add: wf_list_def three_in_A_def unlinked_def)

lemma linked_element_rejected:
  assumes "is_linked (hooks s e)"
  shows "push_front B e s = (Threw AlreadyLinked, s)"
    and "push_back B e s = (Threw AlreadyLinked, s)"
    and "insert_at B pos e s = (Threw AlreadyLinked, s)"
  using assms by (simp_all add: push_front_def push_back_def insert_at_def)

text \<open>
  Claim C1: pushing or inserting an element that is already linked into a list A into a
  list B fails with \<open>AlreadyLinked\<close> and changes neither list. The guard is
  \<open>is_linked\<close>, and it holds for every element with a neighbour
  (\<open>linked_element_rejected\<close>). The sole element of a list has no neighbour: here
  address 1 is the only element of list 0, list 1 is empty, and \<open>push_back\<close>,
  \<open>push_front\<close> and \<open>insert\<close> at \<open>end()\<close> on list 1 all return normally and make
  list 1 hold that element.
\<close>

theorem sole_element_accepted_by_second_list:
  "wf_list (hooks one_in_A) (ilists one_in_A 0) [1] \<and>
   ilists one_in_A 1 = IntrusiveList_new \<and>
   hooks one_in_A 1 = unlinked \<and>
   fst (push_back 1 1 one_in_A) = Returned () \<and>
   fst (push_front 1 1 one_in_A) = Returned () \<and>
   fst (insert_at 1 end_it 1 one_in_A) = Returned () \<and>
   ilists (snd (push_back 1 1 one_in_A)) 1 = \<lparr>m_head = 1, m_tail = 1, m_size = 1\<rparr> \<and>
   ilists (snd (push_front 1 1 one_in_A)) 1 = \<lparr>m_head = 1, m_tail = 1, m_size = 1\<rparr> \<and>
   ilists (snd (insert_at 1 end_it 1 one_in_A)) 1 = \<lparr>m_head = 1, m_tail = 1, m_size = 1\<rparr>"
  by (simp add: wf_list_def one_in_A_def unlinked_def is_linked_def IntrusiveList_new_def
      push_back_def push_front_def insert_at_def begin_it_def end_it_def Let_def)

text \<open>
  Claim C6: an element pushed by \<open>push_front\<close> or \<open>push_back\<close> into an empty list
  is the head and the tail of the list, its hook has \<open>prev = next = nullptr\<close>, and so
  \<open>is_linked\<close> is false for it although it is a member.
\<close>

theorem sole_element_is_not_linked:
  assumes "wf_list (hooks s) (ilists s this) []"
    and "push = push_front \<or> push = push_back"
    and "push this e s = (Returned (), s')"
  shows "prev (hooks s' e) = nullptr \<and> next (hooks s' e) = nullptr \<and>
         \<not> is_linked (hooks s' e) \<and>
         m_head (ilists s' this) = e \<and> m_tail (ilists s' this) = e \<and>
         m_size (ilists s' this) = 1"
proof -
  from assms(1) have emp: "m_head (ilists s this) = nullptr" "m_tail (ilists s this) = nullptr"
    "m_size (ilists s this) = 0"
    by (simp_all add: wf_list_def)
  from assms(2,3) have nl: "\<not> is_linked (hooks s e)"
    by (auto simp: push_front_def push_back_def split: if_splits)
  from assms(2) show ?thesis
  proof
    assume "push = push_front"
    with assms(3) nl emp show ?thesis
      by (auto simp: push_front_def Let_def is_linked_def)
  next
    assume "push = push_back"
    with assms(3) nl emp show ?thesis
      by (auto simp: push_back_def Let_def is_linked_def)
  qed
qed

theorem sole_element_is_not_linked_witness:
  "wf_list (hooks init_state) (ilists init_state 0) [] \<and>
   push_back 0 1 init_state = (Returned (), one_in_A) \<and>
   \<not> is_linked (hooks one_in_A 1) \<and>
   m_head (ilists one_in_A 0) = 1 \<and> m_tail (ilists one_in_A 0) = 1 \<and>
   m_size (ilists one_in_A 0) = 1"
  using sole_element_is_not_linked [of init_state 0 push_back 1 one_in_A] wf_init [of 0]
    push_back_one
  by simp

text \<open>
  Claim C8: distinct, unlinked elements \<open>es\<close> pushed with \<open>push_back\<close> into an empty
  list are all accepted; the forward loop from \<open>begin()\<close> to \<open>end()\<close> then visits
  exactly \<open>es\<close> in order, and the backward loop from the last element visits
  \<open>rev es\<close>. Both loops end within \<open>length es\<close> rounds.
\<close>

theorem push_back_round_trip:
  assumes "wf_list (hooks s) (ilists s this) []"
    and "distinct es" and "nullptr \<notin> set es"
    and "\<forall>e\<in>set es. \<not> is_linked (hooks s e)"
    and "length es \<le> fuel"
    and "push_back_all this es s = (r, s')"
  shows "r = Returned () \<and>
         forward_from fuel (hooks s') (begin_it s' this) = Some es \<and>
         (es \<noteq> [] \<longrightarrow> backward_from fuel (hooks s') (last es) = Some (rev es))"
proof -
  from assms(2) have d: "distinct ([] @ es)" by simp
  from push_back_all_wf [OF assms(1) d assms(3,4)] assms(6)
  have r: "r = Returned ()" and wf: "wf_list (hooks s') (ilists s' this) es"
    by simp_all
  from wf have c: "chain (hooks s') nullptr es nullptr"
    and h: "begin_it s' this = hd (es @ [nullptr])"
    by (simp_all add: wf_list_def begin_it_def)
  have f: "forward_from fuel (hooks s') (begin_it s' this) = Some es"
    unfolding h by (rule forward_from_chain [OF c assms(5)])
  have b: "backward_from fuel (hooks s') (last es) = Some (rev es)" if "es \<noteq> []"
    using backward_from_chain [OF c assms(5)] that by simp
  from r f b show ?thesis by simp
qed

theorem push_back_round_trip_witness:
  "wf_list (hooks init_state) (ilists init_state 0) [] \<and>
   distinct [1, 2, 3 :: ptr] \<and> nullptr \<notin> set [1, 2, 3 :: ptr] \<and>
   \<not> is_linked (hooks init_state 1) \<and> \<not> is_linked (hooks init_state 2) \<and>
   \<not> is_linked (hooks init_state 3) \<and>
   push_back_all 0 [1, 2, 3] init_state = (Returned (), three_in_A) \<and>
   forward_from 3 (hooks three_in_A) (begin_it three_in_A 0) = Some [1, 2, 3] \<and>
   backward_from 3 (hooks three_in_A) 3 = Some [3, 2, 1]"
proof -
  have d: "distinct [1, 2, 3 :: ptr]" and n: "nullptr \<notin> set [1, 2, 3 :: ptr]"
    and u: "\<forall>e\<in>set [1, 2, 3]. \<not> is_linked (hooks init_state e)"
    and l: "length [1, 2, 3 :: ptr] \<le> 3"
    by (simp_all add: init_state_def is_linked_def unlinked_def)
  from push_back_round_trip [OF wf_init d n u l push_back_three] wf_init [of 0] d n u
    push_back_three
  show ?thesis by simp
qed

text \<open>
  Claim C9: the static \<open>remove\<close> leaves every list object as it was and its result does
  not depend on any list object; it clears the element's own hook and changes no hook
  other than the element's and its two neighbours'. So a list whose head or tail was the
  element still has it as head or tail afterwards.
\<close>

theorem remove_static_touches_no_list:
  "ilists (remove_static e s) = ilists s \<and>
   hooks (remove_static e (s\<lparr>ilists := L\<rparr>)) = hooks (remove_static e s) \<and>
   hooks (remove_static e s) e = unlinked \<and>
   (\<forall>a. a \<noteq> e \<and> a \<noteq> prev (hooks s e) \<and> a \<noteq> next (hooks s e) \<longrightarrow>
      hooks (remove_static e s) a = hooks s a) \<and>
   (m_head (ilists s l) = e \<longrightarrow> m_head (ilists (remove_static e s) l) = e) \<and>
   (m_tail (ilists s l) = e \<longrightarrow> m_tail (ilists (remove_static e s) l) = e)"
proof -
  have 1: "ilists (remove_static e s) = ilists s"
    by (simp add: remove_static_def Let_def)
  have 2: "hooks (remove_static e (s\<lparr>ilists := L\<rparr>)) = hooks (remove_static e s)"
    by (simp add: remove_static_def Let_def)
  have 3: "hooks (remove_static e s) e = unlinked"
    by (simp add: remove_static_def Let_def unlinked_def is_linked_def)
  have 4: "hooks (remove_static e s) a = hooks s a"
    if "a \<noteq> e \<and> a \<noteq> prev (hooks s e) \<and> a \<noteq> next (hooks s e)" for a
    using that by (simp add: remove_static_def Let_def)
  from 1 2 3 4 show ?thesis by simp
qed

theorem remove_static_touches_no_list_witness:
  "m_head (ilists two_lists 0) = 1 \<and> is_linked (hooks two_lists 1) \<and>
   m_head (ilists (remove_static 1 two_lists) 0) = 1 \<and>
   m_tail (ilists two_lists 1) = 4 \<and> is_linked (hooks two_lists 4) \<and>
   m_tail (ilists (remove_static 4 two_lists) 1) = 4 \<and>
   hooks (remove_static 1 two_lists) 1 = unlinked \<and>
   hooks (remove_static 1 two_lists) 3 = hooks two_lists 3"
proof -
  have h: "m_head (ilists two_lists 0) = 1" and t: "m_tail (ilists two_lists 1) = 4"
    and l: "is_linked (hooks two_lists 1)" "is_linked (hooks two_lists 4)"
    and n: "3 \<noteq> (1::ptr) \<and> 3 \<noteq> prev (hooks two_lists 1) \<and> 3 \<noteq> next (hooks two_lists 1)"
    by (simp_all add: two_lists_def is_linked_def)
  from remove_static_touches_no_list [of 1 two_lists undefined 0]
    remove_static_touches_no_list [of 4 two_lists undefined 1] h t l n
  show ?thesis by simp
qed

lemma iter_dec_end: "(iter_dec h ^^ n) end_it = end_it"
  by (induction n) (simp_all add: iter_dec_def end_it_def)

lemma iter_inc_end: "(iter_inc h ^^ n) end_it = end_it"
  by (induction n) (simp_all add: iter_inc_def end_it_def)

text \<open>
  Claim C10: incrementing or decrementing the end iterator, any number of times, gives
  the end iterator; so decrementing from \<open>end()\<close> never reaches the tail of a non-empty
  list.
\<close>

theorem end_cursor_is_fixed:
  "iter_inc h end_it = end_it \<and> iter_dec h end_it = end_it \<and>
   (iter_inc h ^^ n) end_it = end_it \<and> (iter_dec h ^^ n) end_it = end_it \<and>
   (wf_list h l xs \<and> xs \<noteq> [] \<longrightarrow> (iter_dec h ^^ n) end_it \<noteq> m_tail l)"
proof -
  have "m_tail l \<noteq> end_it" if "wf_list h l xs" and "xs \<noteq> []"
  proof -
    from that have "m_tail l = last xs" and "nullptr \<notin> set xs"
      by (auto simp: wf_list_def dest: chain_nonnull)
    moreover from that(2) have "last xs \<in> set xs" by (rule last_in_set)
    ultimately show ?thesis by (auto simp: end_it_def)
  qed
  then show ?thesis
    using iter_dec_end [where h = h and n = n] iter_inc_end [where h = h and n = n]
      iter_dec_end [where h = h and n = 1] iter_inc_end [where h = h and n = 1]
    by auto
qed

theorem end_cursor_is_fixed_witness:
  "wf_list (hooks two_lists) (ilists two_lists 0) [1, 2] \<and> [1, 2 :: ptr] \<noteq> [] \<and>
   (iter_dec (hooks two_lists) ^^ 2) end_it = end_it \<and>
   (iter_dec (hooks two_lists) ^^ 2) end_it \<noteq> m_tail (ilists two_lists 0)"
  using end_cursor_is_fixed [where h = "hooks two_lists" and n = 2 and l = "ilists two_lists 0"
      and xs = "[1, 2]"] wf_two_lists(1)
  by auto

subsection \<open>\<open>merge\<close> and \<open>splice\<close> on well-formed lists\<close>

lemma wf_list_nonempty_size:
  assumes "wf_list h l xs" and "xs \<noteq> []"
  shows "m_size l \<noteq> 0"
proof -
  from assms have "unat (m_size l) \<noteq> 0" by (simp add: wf_list_size)
  then show ?thesis by auto
qed

lemma wf_list_empty_obj: "wf_list h l [] \<Longrightarrow> l = IntrusiveList_new"
  by (simp add: wf_list_def IntrusiveList_new_def)

lemma wf_list_ends:
  assumes "wf_list h l xs" and "xs \<noteq> []"
  shows "m_head l = hd xs" and "m_tail l = last xs" and "hd xs \<noteq> nullptr" and "last xs \<noteq> nullptr"
    and "prev (h (hd xs)) = nullptr" and "next (h (last xs)) = nullptr"
    and "hd xs \<in> set xs" and "last xs \<in> set xs"
proof -
  from assms show "m_head l = hd xs" "m_tail l = last xs" by (simp_all add: wf_list_def)
  from assms(2) show i: "hd xs \<in> set xs" "last xs \<in> set xs" by simp_all
  from assms(1) have c: "chain h nullptr xs nullptr" by (simp add: wf_list_def)
  then have "nullptr \<notin> set xs" by (rule chain_nonnull)
  with i show "hd xs \<noteq> nullptr" "last xs \<noteq> nullptr" by auto
  from c assms(2) show "prev (h (hd xs)) = nullptr" by (cases xs) auto
  from assms(2) obtain ys y where xs: "xs = ys @ [y]" by (cases xs rule: rev_cases) auto
  with c show "next (h (last xs)) = nullptr" by (simp add: chain_append)
qed

lemma merge_empty_source:
  "m_size (ilists s other) = 0 \<Longrightarrow> merge this other s = (Returned (), s)"
  by (simp add: merge_def list_empty_def)

lemma merge_into_empty:
  assumes "m_size (ilists s other) \<noteq> 0" and "m_tail (ilists s this) = nullptr" and "this \<noteq> other"
  shows "fst (merge this other s) = Returned ()"
    and "hooks (snd (merge this other s)) = hooks s"
    and "ilists (snd (merge this other s)) =
      (ilists s)(this := \<lparr>m_head = m_head (ilists s other), m_tail = m_tail (ilists s other),
                            m_size = m_size (ilists s this) + m_size (ilists s other)\<rparr>,
                 other := IntrusiveList_new)"
  using assms
  by (simp_all add: merge_def list_empty_def and_then_def Let_def fun_eq_iff IntrusiveList_new_def)

lemma merge_after_tail:
  assumes "m_size (ilists s other) \<noteq> 0" and "m_tail (ilists s this) \<noteq> nullptr"
    and "m_head (ilists s other) \<noteq> nullptr" and "this \<noteq> other"
  shows "fst (merge this other s) = Returned ()"
    and "hooks (snd (merge this other s)) =
      (let t = m_tail (ilists s this); f = m_head (ilists s other);
           h = (hooks s)(t := (hooks s t)\<lparr>next := f\<rparr>)
       in h(f := (h f)\<lparr>prev := t\<rparr>))"
    and "ilists (snd (merge this other s)) =
      (ilists s)(this := \<lparr>m_head = m_head (ilists s this), m_tail = m_tail (ilists s other),
                            m_size = m_size (ilists s this) + m_size (ilists s other)\<rparr>,
                 other := IntrusiveList_new)"
  using assms
  by (simp_all add: merge_def list_empty_def and_then_def Let_def fun_eq_iff IntrusiveList_new_def)

lemma splice_list_empty_source:
  "m_size (ilists s other) = 0 \<Longrightarrow> splice_list this pos other s = (Returned (), s)"
  by (simp add: splice_list_def list_empty_def)

lemma splice_list_sizes:
  assumes "m_size (ilists s other) \<noteq> 0" and "m_head (ilists s other) \<noteq> nullptr"
    and "m_tail (ilists s other) \<noteq> nullptr" and "this \<noteq> other"
  shows "fst (splice_list this pos other s) = Returned ()"
    and "ilists (snd (splice_list this pos other s)) other = IntrusiveList_new"
    and "m_size (ilists (snd (splice_list this pos other s)) this) =
           m_size (ilists s this) + m_size (ilists s other)"
  using assms
  by (simp_all add: splice_list_def list_empty_def and_then_def Let_def IntrusiveList_new_def)

lemma merge_wf:
  assumes wx: "wf_list (hooks s) (ilists s this) xs"
    and wy: "wf_list (hooks s) (ilists s other) ys"
    and dj: "set xs \<inter> set ys = {}" and ne: "this \<noteq> other"
  shows "fst (merge this other s) = Returned () \<and>
         wf_list (hooks (snd (merge this other s))) (ilists (snd (merge this other s)) this)
           (xs @ ys) \<and>
         ilists (snd (merge this other s)) other = IntrusiveList_new"
proof (cases "ys = []")
  case True
  with wy have "m_size (ilists s other) = 0" and "ilists s other = IntrusiveList_new"
    by (simp_all add: wf_list_def IntrusiveList_new_def)
  with wx True show ?thesis
    by (simp add: merge_empty_source)
next
  case False
  note y = wf_list_ends [OF wy False]
  have sz: "m_size (ilists s other) \<noteq> 0"
    by (rule wf_list_nonempty_size [OF wy False])
  show ?thesis
  proof (cases "xs = []")
    case True
    with wx have t: "m_tail (ilists s this) = nullptr" and z: "m_size (ilists s this) = 0"
      by (simp_all add: wf_list_def)
    from wy True z y(1,2) ne show ?thesis
      by (simp add: merge_into_empty [OF sz t ne] wf_list_def)
  next
    case xne: False
    note x = wf_list_ends [OF wx xne]
    let ?t = "last xs" and ?f = "hd ys"
    let ?h1 = "(hooks s)(?t := (hooks s ?t)\<lparr>next := ?f\<rparr>)"
    let ?h2 = "?h1(?f := (?h1 ?f)\<lparr>prev := ?t\<rparr>)"
    from wx wy have dx: "distinct xs" and dy: "distinct ys"
      and cx: "chain (hooks s) nullptr xs nullptr" and cy: "chain (hooks s) nullptr ys nullptr"
      by (simp_all add: wf_list_def)
    from x(8) y(7) dj have tf: "?t \<notin> set ys" "?f \<notin> set xs" by auto
    have t0: "m_tail (ilists s this) \<noteq> nullptr" using x(2,4) by simp
    have f0: "m_head (ilists s other) \<noteq> nullptr" using y(1,3) by simp
    note m = merge_after_tail [OF sz t0 f0 ne]
    have hk: "hooks (snd (merge this other s)) = ?h2"
      using x(2) y(1) by (simp add: m(2) Let_def)
    have c1: "chain ?h1 nullptr xs ?f"
      by (rule chain_set_last_next [OF cx dx xne])
    have c2: "chain ?h2 nullptr xs ?f"
      unfolding chain_upd_notin [OF tf(2)] by (rule c1)
    have c3: "chain ?h1 nullptr ys nullptr"
      unfolding chain_upd_notin [OF tf(1)] by (rule cy)
    have c4: "chain ?h2 ?t ys nullptr"
      by (rule chain_set_hd_prev [OF c3 dy False])
    have hdy: "hd (ys @ [nullptr]) = ?f" using False by simp
    have lx: "last (nullptr # xs) = ?t" using xne by simp
    have c5: "chain ?h2 nullptr (xs @ ys) nullptr"
      unfolding chain_append hdy lx using c2 c4 by simp
    have il: "ilists (snd (merge this other s)) this =
        \<lparr>m_head = hd xs, m_tail = last ys, m_size = of_nat (length xs) + of_nat (length ys)\<rparr>"
      using ne x(1) y(2) wx wy by (simp add: m(3) wf_list_def)
    have w: "wf_list ?h2 (ilists (snd (merge this other s)) this) (xs @ ys)"
      unfolding wf_list_def il using c5 dx dy dj xne False by simp
    from w show ?thesis
      unfolding hk using m(1) by (simp add: m(3))
  qed
qed

lemma disjoint_sizes_add:
  assumes wx: "wf_list h lx xs" and wy: "wf_list h ly ys" and dj: "set xs \<inter> set ys = {}"
  shows "unat (m_size lx + m_size ly) = unat (m_size lx) + unat (m_size ly)"
proof -
  from wx wy dj have "distinct (xs @ ys)" and "nullptr \<notin> set (xs @ ys)"
    by (auto simp: wf_list_def dest: chain_nonnull)
  then have "length (xs @ ys) < 2 ^ 64" by (rule length_ptr_list_bound)
  then have "unat (m_size lx) + unat (m_size ly) < 2 ^ 64"
    by (simp add: wf_list_size [OF wx] wf_list_size [OF wy])
  then show ?thesis
    by (simp add: unat_add_lem [THEN iffD1])
qed

text \<open>
  Claim C5: for two distinct list objects that hold disjoint well-formed chains \<open>xs\<close>
  and \<open>ys\<close>, \<open>merge\<close> and the whole-list \<open>splice\<close> (at any position) return
  normally, leave the source with null head, null tail and size 0, and give the
  destination the sum of the two sizes (without wrap-around); after \<open>merge\<close> the
  destination holds the chain \<open>xs @ ys\<close>.
\<close>

theorem merge_and_splice_move_everything:
  assumes "wf_list (hooks s) (ilists s this) xs"
    and "wf_list (hooks s) (ilists s other) ys"
    and "set xs \<inter> set ys = {}" and "this \<noteq> other"
    and "merge this other s = (rm, sm)"
    and "splice_list this pos other s = (rs, ss)"
  shows "rm = Returned () \<and> rs = Returned () \<and>
         wf_list (hooks sm) (ilists sm this) (xs @ ys) \<and>
         ilists sm other = \<lparr>m_head = nullptr, m_tail = nullptr, m_size = 0\<rparr> \<and>
         ilists ss other = \<lparr>m_head = nullptr, m_tail = nullptr, m_size = 0\<rparr> \<and>
         unat (list_size sm this) = unat (list_size s this) + unat (list_size s other) \<and>
         unat (list_size ss this) = unat (list_size s this) + unat (list_size s other)"
proof -
  note add = disjoint_sizes_add [OF assms(1,2,3)]
  from merge_wf [OF assms(1-4)] assms(5)
  have m: "rm = Returned ()" "wf_list (hooks sm) (ilists sm this) (xs @ ys)"
    "ilists sm other = IntrusiveList_new"
    by simp_all
  have "unat (m_size (ilists sm this)) = length xs + length ys"
    using wf_list_size [OF m(2)] by simp
  then have msz: "unat (list_size sm this) = unat (list_size s this) + unat (list_size s other)"
    by (simp add: list_size_def wf_list_size [OF assms(1)] wf_list_size [OF assms(2)])
  have sp: "rs = Returned () \<and> ilists ss other = IntrusiveList_new \<and>
      m_size (ilists ss this) = m_size (ilists s this) + m_size (ilists s other)"
  proof (cases "ys = []")
    case True
    with assms(2) have "m_size (ilists s other) = 0" and "ilists s other = IntrusiveList_new"
      by (simp_all add: wf_list_def IntrusiveList_new_def)
    with assms(6) show ?thesis
      by (simp add: splice_list_empty_source)
  next
    case False
    note y = wf_list_ends [OF assms(2) False]
    have sz: "m_size (ilists s other) \<noteq> 0"
      by (rule wf_list_nonempty_size [OF assms(2) False])
    have f0: "m_head (ilists s other) \<noteq> nullptr" using y(1,3) by simp
    have t0: "m_tail (ilists s other) \<noteq> nullptr" using y(2,4) by simp
    from splice_list_sizes [OF sz f0 t0 assms(4), of pos] assms(6) show ?thesis
      by simp
  qed
  then have ssz: "unat (list_size ss this) = unat (list_size s this) + unat (list_size s other)"
    using add by (simp add: list_size_def)
  from m msz sp ssz show ?thesis
    by (simp add: IntrusiveList_new_def)
qed

theorem merge_and_splice_move_everything_witness:
  "wf_list (hooks two_lists) (ilists two_lists 0) [1, 2] \<and>
   wf_list (hooks two_lists) (ilists two_lists 1) [3, 4] \<and>
   set [1, 2 :: ptr] \<inter> set [3, 4] = {} \<and> (0::nat) \<noteq> 1 \<and>
   fst (merge 0 1 two_lists) = Returned () \<and>
   fst (splice_list 0 2 1 two_lists) = Returned () \<and>
   wf_list (hooks (snd (merge 0 1 two_lists))) (ilists (snd (merge 0 1 two_lists)) 0)
     [1, 2, 3, 4] \<and>
   ilists (snd (merge 0 1 two_lists)) 1 = \<lparr>m_head = nullptr, m_tail = nullptr, m_size = 0\<rparr> \<and>
   ilists (snd (splice_list 0 2 1 two_lists)) 1 =
     \<lparr>m_head = nullptr, m_tail = nullptr, m_size = 0\<rparr> \<and>
   unat (list_size (snd (merge 0 1 two_lists)) 0) = 2 + 2 \<and>
   unat (list_size (snd (splice_list 0 2 1 two_lists)) 0) = 2 + 2"
proof -
  have dj: "set [1, 2 :: ptr] \<inter> set [3, 4] = {}" and ne: "(0::nat) \<noteq> 1" by simp_all
  have sz: "unat (list_size two_lists 0) = 2" "unat (list_size two_lists 1) = 2"
    by (simp_all add: list_size_def two_lists_def)
  from merge_and_splice_move_everything [OF wf_two_lists dj ne surjective_pairing
      surjective_pairing, of 2] wf_two_lists dj sz
  show ?thesis by simp
qed

lemma find_block_tail_chain:
  "chain h p ys nullptr \<Longrightarrow> length ys \<le> fuel \<Longrightarrow>
   find_block_tail fuel h (hd (ys @ [nullptr])) nullptr bt = Some (last (bt # ys))"
proof (induction ys arbitrary: p fuel bt)
  case Nil
  then show ?case by (cases fuel) simp_all
next
  case (Cons y ys)
  then obtain f where f: "fuel = Suc f" by (cases fuel) auto
  from Cons.prems have y: "y \<noteq> nullptr" "next (h y) = hd (ys @ [nullptr])"
    and c: "chain h y ys nullptr" and l: "length ys \<le> f"
    using f by simp_all
  from Cons.IH [OF c l, of y] y show ?case
    unfolding f by (simp add: iter_inc_def)
qed

lemma count_run_chain:
  "chain h p ys nullptr \<Longrightarrow> length ys \<le> fuel \<Longrightarrow>
   count_run fuel h (hd (ys @ [nullptr])) nullptr c = Some (c + of_nat (length ys))"
proof (induction ys arbitrary: p fuel c)
  case Nil
  then show ?case by (cases fuel) simp_all
next
  case (Cons y ys)
  then obtain f where f: "fuel = Suc f" by (cases fuel) auto
  from Cons.prems have y: "y \<noteq> nullptr" "next (h y) = hd (ys @ [nullptr])"
    and c: "chain h y ys nullptr" and l: "length ys \<le> f"
    using f by simp_all
  from Cons.IH [OF c l, of "c + 1"] y show ?case
    unfolding f by (simp add: iter_inc_def add.assoc)
qed

lemma splice_range_whole_nonempty:
  assumes sz: "m_size (ilists s other) = c" "c \<noteq> 0"
    and hd: "m_head (ilists s other) = f" "f \<noteq> nullptr" "prev (hooks s f) = nullptr"
    and tl: "m_tail (ilists s other) = b" "b \<noteq> nullptr" "next (hooks s b) = nullptr"
    and bt: "find_block_tail fuel (hooks s) f nullptr nullptr = Some b"
    and cr: "count_run fuel (hooks s) f nullptr 0 = Some c"
    and ne: "this \<noteq> other" and tb: "m_tail (ilists s this) \<noteq> b"
  shows "splice_range fuel this pos other f nullptr s = Some (splice_list this pos other s)"
proof (cases "pos = nullptr")
    case True
    show ?thesis
    proof (cases "m_tail (ilists s this) = nullptr")
      case t0: True
      show ?thesis
        using assms True t0
        by (auto simp: splice_range_def splice_list_def list_empty_def and_then_def Let_def
            fun_eq_iff intro!: state_eqI)
    next
      case t1: False
      show ?thesis
        using assms True t1
        by (auto simp: splice_range_def splice_list_def list_empty_def and_then_def Let_def
            fun_eq_iff intro!: state_eqI)
    qed
  next
    case False
    show ?thesis
    proof (cases "prev (hooks s pos) = nullptr")
      case p0: True
      show ?thesis
        using assms False p0
        by (auto simp: splice_range_def splice_list_def list_empty_def and_then_def Let_def
            fun_eq_iff intro!: state_eqI)
    next
      case p1: False
      show ?thesis
        using assms False p1
        by (auto simp: splice_range_def splice_list_def list_empty_def and_then_def Let_def
            fun_eq_iff intro!: state_eqI)
    qed
qed

text \<open>
  Claim C7: for two distinct list objects that hold disjoint well-formed chains, the
  range \<open>splice\<close> called with \<open>first = other.begin()\<close> and \<open>last = other.end()\<close>
  ends (its loops need \<open>length ys\<close> rounds) and reaches exactly the state, hooks and
  list objects, that the whole-list \<open>splice\<close> reaches, at any position.
\<close>

theorem splice_range_of_whole_list:
  assumes "wf_list (hooks s) (ilists s this) xs"
    and "wf_list (hooks s) (ilists s other) ys"
    and "set xs \<inter> set ys = {}" and "this \<noteq> other"
    and "length ys \<le> fuel"
  shows "splice_range fuel this pos other (begin_it s other) end_it s =
           Some (splice_list this pos other s)"
proof (cases "ys = []")
  case True
  with assms(2) have "m_size (ilists s other) = 0" and "m_head (ilists s other) = nullptr"
    by (simp_all add: wf_list_def)
  then show ?thesis
    by (simp add: splice_list_empty_source splice_range_def begin_it_def end_it_def)
next
  case False
  note y = wf_list_ends [OF assms(2) False]
  from assms(2) have c: "chain (hooks s) nullptr ys nullptr"
    and sz: "m_size (ilists s other) = of_nat (length ys)"
    by (simp_all add: wf_list_def)
  have z: "m_size (ilists s other) \<noteq> 0"
    by (rule wf_list_nonempty_size [OF assms(2) False])
  have bt: "find_block_tail fuel (hooks s) (hd ys) nullptr nullptr = Some (last ys)"
    using find_block_tail_chain [OF c assms(5), of nullptr] False by simp
  have cr: "count_run fuel (hooks s) (hd ys) nullptr 0 = Some (m_size (ilists s other))"
    using count_run_chain [OF c assms(5), of 0] False sz by simp
  have tb: "m_tail (ilists s this) \<noteq> last ys"
  proof (cases "xs = []")
    case True
    with assms(1) have "m_tail (ilists s this) = nullptr" by (simp add: wf_list_def)
    with y(4) show ?thesis by simp
  next
    case xne: False
    note x = wf_list_ends [OF assms(1) xne]
    from x(2,8) y(8) assms(3) show ?thesis by auto
  qed
  have "splice_range fuel this pos other (hd ys) nullptr s =
      Some (splice_list this pos other s)"
    by (rule splice_range_whole_nonempty
        [OF refl z y(1) y(3) y(5) y(2) y(4) y(6) bt cr assms(4) tb])
  then show ?thesis
    by (simp add: begin_it_def end_it_def y(1))
qed

theorem splice_range_of_whole_list_witness:
  "wf_list (hooks two_lists) (ilists two_lists 0) [1, 2] \<and>
   wf_list (hooks two_lists) (ilists two_lists 1) [3, 4] \<and>
   set [1, 2 :: ptr] \<inter> set [3, 4] = {} \<and> (0::nat) \<noteq> 1 \<and> length [3, 4 :: ptr] \<le> 2 \<and>
   splice_range 2 0 2 1 (begin_it two_lists 1) end_it two_lists =
     Some (splice_list 0 2 1 two_lists) \<and>
   forward_from (Suc (Suc (Suc (Suc 0)))) (hooks (snd (splice_list 0 2 1 two_lists)))
     (begin_it (snd (splice_list 0 2 1 two_lists)) 0) = Some [1, 3, 4, 2]"
proof -
  have dj: "set [1, 2 :: ptr] \<inter> set [3, 4] = {}" and ne: "(0::nat) \<noteq> 1"
    and l: "length [3, 4 :: ptr] \<le> 2"
    by simp_all
  have f: "forward_from (Suc (Suc (Suc (Suc 0)))) (hooks (snd (splice_list 0 2 1 two_lists)))
     (begin_it (snd (splice_list 0 2 1 two_lists)) 0) = Some [1, 3, 4, 2]"
    by (simp add: splice_list_def two_lists_def list_empty_def and_then_def Let_def
        begin_it_def end_it_def iter_inc_def)
  from splice_range_of_whole_list [OF wf_two_lists dj ne l, of 2] wf_two_lists dj f
  show ?thesis by simp
qed

subsection \<open>\<open>erase\<close>, \<open>remove_if\<close> and \<open>pop_back\<close> on well-formed lists\<close>

lemma erase_returns:
  "x \<noteq> nullptr \<Longrightarrow> fst (erase this x s) = Returned (next (hooks s x))"
  by (simp add: erase_def Let_def)

lemma erase_end: "erase this nullptr s = (Threw InvalidPosition, s)"
  by (simp add: erase_def)

lemma erase_hooks:
  "x \<noteq> nullptr \<Longrightarrow> prev (hooks s x) \<noteq> x \<Longrightarrow>
   hooks (snd (erase this x s)) =
     (let h = hooks s; p = prev (h x); n = next (h x);
          h1 = (if p \<noteq> nullptr then h(p := (h p)\<lparr>next := n\<rparr>) else h);
          h2 = (if n \<noteq> nullptr then h1(n := (h1 n)\<lparr>prev := p\<rparr>) else h1)
      in h2(x := unlinked))"
  by (auto simp: erase_def Let_def unlinked_def fun_eq_iff)

lemma erase_ilists:
  "x \<noteq> nullptr \<Longrightarrow> prev (hooks s x) \<noteq> x \<Longrightarrow>
   ilists (snd (erase this x s)) =
     (ilists s)(this :=
        \<lparr>m_head = (if prev (hooks s x) \<noteq> nullptr then m_head (ilists s this)
                    else next (hooks s x)),
         m_tail = (if next (hooks s x) \<noteq> nullptr then m_tail (ilists s this)
                    else prev (hooks s x)),
         m_size = m_size (ilists s this) - 1\<rparr>)"
  by (auto simp: erase_def Let_def fun_eq_iff)

lemma chain_erase:
  assumes c: "chain h nullptr (as @ x # bs) nullptr" and d: "distinct (as @ x # bs)"
  shows "chain
      (let p = prev (h x); n = next (h x);
           h1 = (if p \<noteq> nullptr then h(p := (h p)\<lparr>next := n\<rparr>) else h);
           h2 = (if n \<noteq> nullptr then h1(n := (h1 n)\<lparr>prev := p\<rparr>) else h1)
       in h2(x := z)) nullptr (as @ bs) nullptr"
proof -
  let ?p = "last (nullptr # as)" and ?n = "hd (bs @ [nullptr])"
  from c have ca: "chain h nullptr as x" and cx: "chain h ?p [x] ?n" and cb: "chain h x bs nullptr"
    by (simp_all add: chain_append)
  from cx have px: "prev (h x) = ?p" and nx: "next (h x) = ?n" by simp_all
  from c have nn: "nullptr \<notin> set (as @ x # bs)" by (rule chain_nonnull)
  from d have da: "distinct as" and db: "distinct bs" and xa: "x \<notin> set as" and xb: "x \<notin> set bs"
    and ab: "set as \<inter> set bs = {}"
    by auto
  let ?h1 = "if ?p \<noteq> nullptr then h(?p := (h ?p)\<lparr>next := ?n\<rparr>) else h"
  let ?h2 = "if ?n \<noteq> nullptr then ?h1(?n := (?h1 ?n)\<lparr>prev := ?p\<rparr>) else ?h1"
  have p0: "?p \<noteq> nullptr \<longleftrightarrow> as \<noteq> []"
    using nn by (cases as rule: rev_cases) auto
  have n0: "?n \<noteq> nullptr \<longleftrightarrow> bs \<noteq> []"
    using nn by (cases bs) auto
  have a1: "chain ?h1 nullptr as ?n"
  proof (cases "as = []")
    case True
    then show ?thesis by simp
  next
    case False
    with chain_set_last_next [OF ca da False, of ?n] p0 show ?thesis by simp
  qed
  have b1: "chain ?h1 x bs nullptr"
  proof (cases "as = []")
    case True
    with cb show ?thesis by simp
  next
    case False
    then have "last as \<in> set as" by (rule last_in_set)
    with ab have "last as \<notin> set bs" by auto
    with cb False p0 show ?thesis by (simp add: chain_upd_notin)
  qed
  have a2: "chain ?h2 nullptr as ?n"
  proof (cases "bs = []")
    case True
    with a1 show ?thesis by simp
  next
    case False
    then have "hd bs \<in> set bs" by (rule hd_in_set)
    with ab have "hd bs \<notin> set as" by auto
    with a1 False n0 show ?thesis by (simp add: chain_upd_notin del: fun_upd_apply)
  qed
  have b2: "chain ?h2 ?p bs nullptr"
  proof (cases "bs = []")
    case True
    then show ?thesis by simp
  next
    case False
    with chain_set_hd_prev [OF b1 db False, of ?p] n0 show ?thesis by simp
  qed
  from a2 b2 have ab2: "chain ?h2 nullptr (as @ bs) nullptr"
    by (simp add: chain_append)
  from xa xb have xn: "x \<notin> set (as @ bs)" by simp
  have "chain (?h2(x := z)) nullptr (as @ bs) nullptr"
    unfolding chain_upd_notin [OF xn] by (rule ab2)
  then show ?thesis
    unfolding Let_def px nx .
qed

lemma erase_wf:
  assumes wf: "wf_list (hooks s) (ilists s this) (as @ x # bs)"
  shows "fst (erase this x s) = Returned (hd (bs @ [nullptr]))"
    and "wf_list (hooks (snd (erase this x s))) (ilists (snd (erase this x s)) this) (as @ bs)"
proof -
  let ?h = "hooks s"
  from wf have d: "distinct (as @ x # bs)" and c: "chain ?h nullptr (as @ x # bs) nullptr"
    and hd: "m_head (ilists s this) = hd ((as @ x # bs) @ [nullptr])"
    and tl: "m_tail (ilists s this) = last (nullptr # as @ x # bs)"
    and sz: "m_size (ilists s this) = of_nat (length (as @ x # bs))"
    by (simp_all add: wf_list_def)
  from c have nn: "nullptr \<notin> set (as @ x # bs)" by (rule chain_nonnull)
  then have x0: "x \<noteq> nullptr" by auto
  from c have px: "prev (?h x) = last (nullptr # as)" and nx: "next (?h x) = hd (bs @ [nullptr])"
    by (simp_all add: chain_append)
  have pne: "prev (?h x) \<noteq> x"
  proof (cases "as = []")
    case True
    with px x0 show ?thesis by simp
  next
    case False
    then have "last as \<in> set as" by (rule last_in_set)
    with d px False show ?thesis by auto
  qed
  have p0: "last (nullptr # as) \<noteq> nullptr \<longleftrightarrow> as \<noteq> []"
    using nn by (cases as rule: rev_cases) auto
  have n0: "hd (bs @ [nullptr]) \<noteq> nullptr \<longleftrightarrow> bs \<noteq> []"
    using nn by (cases bs) auto
  show "fst (erase this x s) = Returned (hd (bs @ [nullptr]))"
    using erase_returns [OF x0, of this s] nx by simp
  have ch: "chain (hooks (snd (erase this x s))) nullptr (as @ bs) nullptr"
    using chain_erase [OF c d, of unlinked] by (simp add: erase_hooks [OF x0 pne] Let_def)
  have h': "m_head (ilists (snd (erase this x s)) this) = hd ((as @ bs) @ [nullptr])"
    using hd px nx p0 by (cases "as = []") (simp_all add: erase_ilists [OF x0 pne])
  have t': "m_tail (ilists (snd (erase this x s)) this) = last (nullptr # as @ bs)"
    using tl px nx n0 by (cases "bs = []") (simp_all add: erase_ilists [OF x0 pne])
  have s': "m_size (ilists (snd (erase this x s)) this) = of_nat (length (as @ bs))"
    using sz by (simp add: erase_ilists [OF x0 pne])
  from d have "distinct (as @ bs)" by auto
  with ch h' t' s'
  show "wf_list (hooks (snd (erase this x s))) (ilists (snd (erase this x s)) this) (as @ bs)"
    unfolding wf_list_def by simp
qed

text \<open>
  What \<open>remove_if\<close> leaves of a chain: without the elements that satisfy the predicate,
  except that a last element satisfying it stays (the call throws there).
\<close>

lemma remove_if_loop_wf:
  assumes "wf_list (hooks s) (ilists s this) (ds @ rest)" and "length rest \<le> fuel"
  shows "\<exists>s'. remove_if_loop fuel this p (hd (rest @ [nullptr])) s =
            Some (if rest \<noteq> [] \<and> p (last rest) then Threw InvalidPosition else Returned (), s') \<and>
          wf_list (hooks s') (ilists s' this)
            (ds @ (if rest \<noteq> [] \<and> p (last rest)
                   then filter (\<lambda>e. \<not> p e) (butlast rest) @ [last rest]
                   else filter (\<lambda>e. \<not> p e) rest))"
  using assms
proof (induction rest arbitrary: s ds fuel)
  case Nil
  then show ?case by (cases fuel) (simp_all add: end_it_def)
next
  case (Cons x rest)
  then obtain f where f: "fuel = Suc f" by (cases fuel) auto
  with Cons.prems have l: "length rest \<le> f" by simp
  from Cons.prems(1) have c: "chain (hooks s) nullptr (ds @ x # rest) nullptr"
    by (simp add: wf_list_def)
  then have nn: "nullptr \<notin> set (ds @ x # rest)" by (rule chain_nonnull)
  then have x0: "x \<noteq> nullptr" by auto
  from c have nx: "next (hooks s x) = hd (rest @ [nullptr])"
    by (simp add: chain_append)
  show ?case
  proof (cases "p x")
    case False
    from Cons.prems(1) have wf': "wf_list (hooks s) (ilists s this) ((ds @ [x]) @ rest)"
      by simp
    from Cons.IH [OF wf' l] False x0 nx show ?thesis
      unfolding f by (cases "rest = []") (auto simp: end_it_def iter_inc_def)
  next
    case True
    show ?thesis
    proof (cases "rest = []")
      case r: True
      with True x0 nx Cons.prems(1) show ?thesis
        unfolding f by (simp add: end_it_def iter_inc_def iter_dec_def erase_end)
    next
      case r: False
      then obtain y ys where rest: "rest = y # ys" by (cases rest) auto
      from c rest have y: "y \<noteq> nullptr" "prev (hooks s y) = x"
        by (simp_all add: chain_append)
      from nx rest have nxy: "next (hooks s x) = y" by simp
      obtain r1 s1 where e: "erase this x s = (r1, s1)" by (cases "erase this x s")
      from erase_wf [OF Cons.prems(1)] e
      have r1: "r1 = Returned (hd (rest @ [nullptr]))"
        and wf1: "wf_list (hooks s1) (ilists s1 this) (ds @ rest)"
        by simp_all
      from Cons.IH [OF wf1 l] obtain s' where
        s': "remove_if_loop f this p (hd (rest @ [nullptr])) s1 =
            Some (if rest \<noteq> [] \<and> p (last rest) then Threw InvalidPosition else Returned (), s')"
        and w': "wf_list (hooks s') (ilists s' this)
            (ds @ (if rest \<noteq> [] \<and> p (last rest)
                   then filter (\<lambda>e. \<not> p e) (butlast rest) @ [last rest]
                   else filter (\<lambda>e. \<not> p e) rest))"
        by blast
      have step: "remove_if_loop (Suc f) this p x s = remove_if_loop f this p y s1"
        using True x0 nxy y e r1 by (simp add: end_it_def iter_inc_def iter_dec_def)
      have go: "remove_if_loop fuel this p (hd ((x # rest) @ [nullptr])) s =
          remove_if_loop f this p (hd (rest @ [nullptr])) s1"
        unfolding f using step rest by (simp del: remove_if_loop.simps)
      from s' w' r True show ?thesis
        unfolding go by (intro exI [of _ s']) (cases "p (last rest)"; simp)
    qed
  qed
qed

lemma remove_if_wf:
  assumes "wf_list (hooks s) (ilists s this) xs" and "length xs \<le> fuel"
  shows "\<exists>s'. remove_if fuel this p s =
            Some (if xs \<noteq> [] \<and> p (last xs) then Threw InvalidPosition else Returned (), s') \<and>
          wf_list (hooks s') (ilists s' this)
            (if xs \<noteq> [] \<and> p (last xs)
             then filter (\<lambda>e. \<not> p e) (butlast xs) @ [last xs]
             else filter (\<lambda>e. \<not> p e) xs)"
proof -
  from assms(1) have b: "begin_it s this = hd (xs @ [nullptr])"
    by (simp add: begin_it_def wf_list_def)
  from assms(1) have "wf_list (hooks s) (ilists s this) ([] @ xs)" by simp
  from remove_if_loop_wf [OF this assms(2), of p] show ?thesis
    by (simp add: remove_if_def b)
qed

text \<open>
  Claim C2: \<open>remove_if\<close> erases exactly the elements that satisfy the predicate, also
  when the last element does. On the list 1, 2, 3 with the predicate "is element 3" the
  loop reaches the last element, increments to \<open>end()\<close>, decrements the end iterator
  (which stays \<open>end()\<close>) and calls \<open>erase(end())\<close>: the call throws and the list
  still holds the three elements. \<open>remove_if_wf\<close> above is the general statement.
\<close>

theorem remove_if_throws_on_last_element:
  "remove_if (Suc (Suc (Suc n))) 0 (\<lambda>e. e = 3) three_in_A =
     Some (Threw InvalidPosition, three_in_A)"
  by (simp add: remove_if_def begin_it_def end_it_def three_in_A_def iter_inc_def iter_dec_def
      erase_def Let_def)

lemma pop_back_single:
  assumes "wf_list (hooks s) (ilists s this) [x]"
  shows "fst (pop_back this s) = Returned ()"
    and "ilists (snd (pop_back this s)) this = \<lparr>m_head = x, m_tail = nullptr, m_size = 0\<rparr>"
    and "hooks (snd (pop_back this s)) x = unlinked"
  using assms
  by (simp_all add: wf_list_def pop_back_def list_empty_def Let_def unlinked_def)

lemma pop_back_wf:
  assumes wf: "wf_list (hooks s) (ilists s this) (as @ [x])" and ne: "as \<noteq> []"
  shows "fst (pop_back this s) = Returned ()"
    and "wf_list (hooks (snd (pop_back this s))) (ilists (snd (pop_back this s)) this) as"
proof -
  let ?h = "hooks s" and ?t = "last as"
  let ?h1 = "?h(?t := (?h ?t)\<lparr>next := nullptr\<rparr>)"
  note e = wf_list_ends [OF wf]
  from wf have d: "distinct as" and xa: "x \<notin> set as"
    and c: "chain ?h nullptr (as @ [x]) nullptr"
    and hd: "m_head (ilists s this) = hd as"
    and sz: "m_size (ilists s this) = of_nat (length as) + 1"
    using ne by (simp_all add: wf_list_def)
  from c ne have ca: "chain ?h nullptr as x" and px: "prev (?h x) = ?t" and x0: "x \<noteq> nullptr"
    by (simp_all add: chain_append)
  from ne have "?t \<in> set as" by (rule last_in_set)
  with xa chain_nonnull [OF ca] have t0: "?t \<noteq> nullptr" and tx: "?t \<noteq> x" by auto
  from e(2) have tl: "m_tail (ilists s this) = x" by simp
  have z: "m_size (ilists s this) \<noteq> 0"
    by (rule wf_list_nonempty_size [OF wf]) simp
  show "fst (pop_back this s) = Returned ()"
    by (simp add: pop_back_def Let_def)
  have hk: "hooks (snd (pop_back this s)) = ?h1(x := unlinked)"
    using z tl x0 px t0 tx
    by (auto simp: pop_back_def list_empty_def Let_def unlinked_def fun_eq_iff)
  have il: "ilists (snd (pop_back this s)) this =
      \<lparr>m_head = hd as, m_tail = ?t, m_size = of_nat (length as)\<rparr>"
    using z tl x0 px t0 hd sz
    by (simp add: pop_back_def list_empty_def Let_def)
  have c1: "chain ?h1 nullptr as nullptr"
    by (rule chain_set_last_next [OF ca d ne])
  have c2: "chain (?h1(x := unlinked)) nullptr as nullptr"
    unfolding chain_upd_notin [OF xa] by (rule c1)
  show "wf_list (hooks (snd (pop_back this s))) (ilists (snd (pop_back this s)) this) as"
    unfolding wf_list_def hk il using c2 d ne by simp
qed

text \<open>
  Claim C4: in every reachable state the size is 0 iff the head is null iff the tail is
  null. \<open>push_back\<close> of one element followed by \<open>pop_back\<close> leaves size 0 and a
  null tail but the head still pointing at the removed element; \<open>pop_front\<close> on the
  same list resets both. \<open>pop_back_single\<close> and \<open>pop_back_wf\<close> above say that the
  one-element list is the only one on which \<open>pop_back\<close> breaks the invariant.
\<close>

theorem pop_back_keeps_stale_head:
  "push_back 0 1 init_state = (Returned (), one_in_A) \<and>
   fst (pop_back 0 one_in_A) = Returned () \<and>
   ilists (snd (pop_back 0 one_in_A)) 0 = \<lparr>m_head = 1, m_tail = nullptr, m_size = 0\<rparr> \<and>
   ilists (snd (pop_front 0 one_in_A)) 0 = \<lparr>m_head = nullptr, m_tail = nullptr, m_size = 0\<rparr>"
  by (simp add: push_back_one)
    (simp add: pop_back_def pop_front_def one_in_A_def list_empty_def unlinked_def Let_def)

end
